theory Spec2Isabelle
  imports Main
begin

section \<open>The printipi event scheduler (scheduler.cpp)\<close>

text \<open>
  A shallow embedding of \<^verbatim>\<open>src/code/firmware/src/scheduler.cpp\<close>. Each member function
  of \<^verbatim>\<open>Scheduler\<close> is a HOL function on an explicit state. The headers
  (\<^verbatim>\<open>scheduler.h\<close>, \<^verbatim>\<open>event.h\<close>, \<^verbatim>\<open>timeutil.h\<close>, \<^verbatim>\<open>logging.h\<close>) are not available;
  what the functions use of them is modelled from the specification and marked so.
\<close>

subsection \<open>Outcomes of a call\<close>

text \<open>
  A call returns a value, throws a C++ exception, suspends its thread (on the mutex or
  on the condition variable; in a sequential run nothing wakes it, so the call does not
  return), or runs into undefined behaviour.
\<close>

datatype exn = RuntimeError | SystemError

datatype 'a outcome = Returns 'a | Throws exn | Blocks | UndefinedBehaviour

subsection \<open>Time, events and PWM parameters\<close>

record timespec =
  tv_sec :: int
  tv_nsec :: int

text \<open>
  Modelled from the spec: \<^verbatim>\<open>timespecLt\<close> of the absent \<^verbatim>\<open>timeutil.h\<close>, the comparison
  \<open>a < b\<close> of two normalised monotonic times (seconds first, then nanoseconds).
\<close>

definition timespecLt :: "timespec \<Rightarrow> timespec \<Rightarrow> bool" where
  "timespecLt a b =
     (tv_sec a < tv_sec b \<or> (tv_sec a = tv_sec b \<and> tv_nsec a < tv_nsec b))"

text \<open>
  Modelled from the spec: the class \<^verbatim>\<open>Event\<close> and the directions of the absent
  \<^verbatim>\<open>event.h\<close>: a deadline, a channel id and one of two edge directions, read in the
  source through \<^verbatim>\<open>time()\<close>, \<^verbatim>\<open>stepperId()\<close> and \<^verbatim>\<open>direction()\<close>. \<open>StepForward\<close> is
  the rising edge.
\<close>

datatype StepDirection = StepBackward | StepForward

record Event =
  time :: timespec
  stepperId :: nat
  direction :: StepDirection

text \<open>
  Modelled from the spec: \<^verbatim>\<open>Event::offsetNano\<close> of the absent \<^verbatim>\<open>event.h\<close>, the operation
  \<open>a + ns\<close> on the deadline, with the nanosecond field kept in \<open>[0, 10^9)\<close>.
\<close>

definition offsetNano :: "nat \<Rightarrow> Event \<Rightarrow> Event" where
  "offsetNano ns e =
     (let total = tv_nsec (time e) + int ns
      in e\<lparr>time := \<lparr>tv_sec = tv_sec (time e) + total div 1000000000,
                     tv_nsec = total mod 1000000000\<rparr>\<rparr>)"

text \<open>
  Modelled from the spec: the order of \<^verbatim>\<open>Event\<close> that \<^verbatim>\<open>std::push_heap\<close> uses
  (\<^verbatim>\<open>operator<\<close> of the absent \<^verbatim>\<open>event.h\<close>): \<open>a < b\<close> iff \<open>a.deadline < b.deadline\<close>.
\<close>

definition event_lt :: "Event \<Rightarrow> Event \<Rightarrow> bool" where
  "event_lt a b = timespecLt (time a) (time b)"

text \<open>
  Modelled from the spec: the struct \<^verbatim>\<open>PwmInfo\<close> of the absent \<^verbatim>\<open>scheduler.h\<close>, the two
  half-periods in nanoseconds, unsigned.
\<close>

record PwmInfo =
  nsHigh :: nat
  nsLow :: nat

subsection \<open>The scheduler object\<close>

text \<open>
  \<open>eventQueue\<close> is the \<^verbatim>\<open>std::deque<Event>\<close>, front first. \<open>pwmInfo\<close> is the table indexed
  by the channel id; its size is declared in the absent header, and the model has an
  entry for every id. \<open>lockPushes_owns\<close> tells whether the consumer's
  \<^verbatim>\<open>std::unique_lock _lockPushes\<close> owns \<^verbatim>\<open>mutex\<close>; producers hold the mutex only inside
  their own call, so between calls this is the whole state of the mutex.
\<close>

record Scheduler =
  eventQueue :: "Event list"
  pwmInfo :: "nat \<Rightarrow> PwmInfo"
  lockPushes_owns :: bool
  arePushesLocked :: bool
  bufferSize :: nat

text \<open>
  The constructor: the lock is deferred, \<^verbatim>\<open>_arePushesLocked\<close> is false and the buffer
  size is \<^verbatim>\<open>SCHED_CAPACITY\<close>, a macro of the absent header and so a parameter here.
  Modelled from the spec: a default-constructed \<^verbatim>\<open>PwmInfo\<close> (absent \<^verbatim>\<open>scheduler.h\<close>) has
  both half-periods zero, the inactive channel.
\<close>

definition Scheduler_new :: "nat \<Rightarrow> Scheduler" where
  "Scheduler_new SCHED_CAPACITY =
     \<lparr>eventQueue = [], pwmInfo = (\<lambda>_. \<lparr>nsHigh = 0, nsLow = 0\<rparr>),
      lockPushes_owns = False, arePushesLocked = False,
      bufferSize = SCHED_CAPACITY\<rparr>"

text \<open>Events for the examples: a deadline in milliseconds, a channel and a direction.\<close>

abbreviation at_ms :: "int \<Rightarrow> nat \<Rightarrow> StepDirection \<Rightarrow> Event" where
  "at_ms ms ch d \<equiv>
     \<lparr>time = \<lparr>tv_sec = 0, tv_nsec = ms * 1000000\<rparr>, stepperId = ch, direction = d\<rparr>"

subsection \<open>\<^verbatim>\<open>std::push_heap\<close>\<close>

text \<open>
  The library routine moves the last element of the range up a binary max-heap: while
  the hole is not the root and its parent is less than the new value, the parent moves
  down.
\<close>

function sift_up :: "Event list \<Rightarrow> nat \<Rightarrow> Event list" where
  "sift_up xs i =
     (if i = 0 then xs
      else let p = (i - 1) div 2
           in if event_lt (xs ! p) (xs ! i)
              then sift_up (xs[p := xs ! i, i := xs ! p]) p
              else xs)"
  by pat_completeness auto
termination
  by (relation "measure snd") auto

definition push_heap :: "Event list \<Rightarrow> Event list" where
  "push_heap xs = (if xs = [] then xs else sift_up xs (length xs - 1))"

subsection \<open>Inserting events\<close>

text \<open>
  \<^verbatim>\<open>orderedInsert\<close>: the event is pushed at the back first; the test then reads
  \<^verbatim>\<open>eventQueue.back()\<close> of the queue that already holds it.
\<close>

definition orderedInsert :: "Event \<Rightarrow> Scheduler \<Rightarrow> Scheduler" where
  "orderedInsert evt s =
     (let q = eventQueue s @ [evt]
      in if timespecLt (time evt) (time (last q))
         then s\<lparr>eventQueue := push_heap q\<rparr>
         else s\<lparr>eventQueue := q\<rparr>)"

text \<open>
  \<^verbatim>\<open>queue\<close>: the \<^verbatim>\<open>std::unique_lock\<close> on \<^verbatim>\<open>mutex\<close> suspends the producer while the
  consumer owns the mutex; \<^verbatim>\<open>notify_one\<close> changes no data.
\<close>

definition queue :: "Event \<Rightarrow> Scheduler \<Rightarrow> Scheduler outcome" where
  "queue evt s =
     (if lockPushes_owns s then Blocks else Returns (orderedInsert evt s))"

subsection \<open>The consumer's lock\<close>

text \<open>
  \<^verbatim>\<open>std::unique_lock::lock\<close> throws \<^verbatim>\<open>std::system_error\<close> when the lock already owns the
  mutex, and \<^verbatim>\<open>unlock\<close> throws it when the lock does not own the mutex.
\<close>

definition unique_lock_lock :: "Scheduler \<Rightarrow> Scheduler outcome" where
  "unique_lock_lock s =
     (if lockPushes_owns s then Throws SystemError
      else Returns (s\<lparr>lockPushes_owns := True\<rparr>))"

definition unique_lock_unlock :: "Scheduler \<Rightarrow> Scheduler outcome" where
  "unique_lock_unlock s =
     (if lockPushes_owns s then Returns (s\<lparr>lockPushes_owns := False\<rparr>)
      else Throws SystemError)"

fun obind :: "'a outcome \<Rightarrow> ('a \<Rightarrow> 'b outcome) \<Rightarrow> 'b outcome" where
  "obind (Returns x) f = f x"
| "obind (Throws e) f = Throws e"
| "obind Blocks f = Blocks"
| "obind UndefinedBehaviour f = UndefinedBehaviour"

subsection \<open>\<^verbatim>\<open>schedPwm\<close>\<close>

text \<open>
  \<open>now\<close> is the value \<^verbatim>\<open>timespecNow()\<close> reads from the monotonic clock. The table is
  written before \<^verbatim>\<open>queue\<close> is called, outside the mutex.
\<close>

definition schedPwm :: "nat \<Rightarrow> PwmInfo \<Rightarrow> timespec \<Rightarrow> Scheduler \<Rightarrow> Scheduler outcome" where
  "schedPwm idx p now s =
     (if nsHigh (pwmInfo s idx) \<noteq> 0 \<and> nsLow (pwmInfo s idx) \<noteq> 0
      then Returns (s\<lparr>pwmInfo := (pwmInfo s)(idx := p)\<rparr>)
      else queue \<lparr>time = now, stepperId = idx, direction = StepForward\<rparr>
             (s\<lparr>pwmInfo := (pwmInfo s)(idx := p)\<rparr>))"

subsection \<open>\<^verbatim>\<open>nextEvent\<close>\<close>

text \<open>Lines 102 to 104: the mutex is taken unless the previous call kept it.\<close>

definition nextEvent_acquire :: "Scheduler \<Rightarrow> Scheduler outcome" where
  "nextEvent_acquire s =
     (if \<not> arePushesLocked s then unique_lock_lock s else Returns s)"

text \<open>
  Lines 105 to 107: \<^verbatim>\<open>while (eventQueue.empty()) nonemptyCond.wait(_lockPushes)\<close>. The
  wait gives the mutex up and suspends the consumer until a producer pushes; with no
  other thread running the call on an empty queue does not return. Waiting on a lock
  that does not own the mutex is undefined.
\<close>

definition nextEvent_wait :: "Scheduler \<Rightarrow> Scheduler outcome" where
  "nextEvent_wait s =
     (if eventQueue s = []
      then (if lockPushes_owns s then Blocks else UndefinedBehaviour)
      else Returns s)"

text \<open>Lines 111 to 123: the complementary PWM edge of the popped event.\<close>

definition nextEvent_regenerate :: "Event \<Rightarrow> Scheduler \<Rightarrow> Scheduler" where
  "nextEvent_regenerate evt s =
     (if direction evt = StepForward
      then (if nsHigh (pwmInfo s (stepperId evt)) \<noteq> 0
            then orderedInsert
                   (offsetNano (nsHigh (pwmInfo s (stepperId evt)))
                      \<lparr>time = time evt, stepperId = stepperId evt, direction = StepBackward\<rparr>) s
            else s)
      else (if nsLow (pwmInfo s (stepperId evt)) \<noteq> 0
            then orderedInsert
                   (offsetNano (nsLow (pwmInfo s (stepperId evt)))
                      \<lparr>time = time evt, stepperId = stepperId evt, direction = StepForward\<rparr>) s
            else s))"

text \<open>Lines 124 to 129: the mutex is given back only while the queue is underfilled.\<close>

definition nextEvent_release :: "Scheduler \<Rightarrow> Scheduler outcome" where
  "nextEvent_release s =
     (if length (eventQueue s) < bufferSize s
      then obind (unique_lock_unlock s) (\<lambda>s'. Returns (s'\<lparr>arePushesLocked := False\<rparr>))
      else Returns (s\<lparr>arePushesLocked := True\<rparr>))"

text \<open>
  The whole call. The sleep until the deadline of the popped event
  (\<^verbatim>\<open>clock_nanosleep\<close>) comes after all of this and changes no data of the scheduler.
\<close>

definition nextEvent :: "Scheduler \<Rightarrow> (Event \<times> Scheduler) outcome" where
  "nextEvent s =
     obind (nextEvent_acquire s) (\<lambda>s1.
     obind (nextEvent_wait s1) (\<lambda>s2.
       let evt = hd (eventQueue s2);
           s3 = s2\<lparr>eventQueue := tl (eventQueue s2)\<rparr>;
           s4 = nextEvent_regenerate evt s3
       in obind (nextEvent_release s4) (\<lambda>s5. Returns (evt, s5))))"

subsection \<open>\<^verbatim>\<open>lastSchedTime\<close> and the buffer size\<close>

text \<open>\<open>now\<close> is what \<^verbatim>\<open>clock_gettime(CLOCK_MONOTONIC)\<close> reads.\<close>

definition lastSchedTime :: "timespec \<Rightarrow> Scheduler \<Rightarrow> timespec outcome" where
  "lastSchedTime now s =
     (if lockPushes_owns s then Blocks
      else if length (eventQueue s) \<noteq> 0 then Returns (time (last (eventQueue s)))
      else Returns now)"

definition setBufferSize :: "nat \<Rightarrow> Scheduler \<Rightarrow> Scheduler" where
  "setBufferSize sz s = s\<lparr>bufferSize := sz\<rparr>"

definition getBufferSize :: "Scheduler \<Rightarrow> nat" where
  "getBufferSize s = bufferSize s"

subsection \<open>Runs of calls\<close>

text \<open>
  A run is a sequence of calls on one scheduler, each completed before the next starts;
  it collects the events \<^verbatim>\<open>nextEvent\<close> returned, in order. A call that does not return
  ends the run with its outcome.
\<close>

datatype call =
    Queue Event
  | SchedPwm nat PwmInfo timespec
  | NextEvent
  | SetBufferSize nat

fun do_call :: "call \<Rightarrow> Scheduler \<Rightarrow> (Event list \<times> Scheduler) outcome" where
  "do_call (Queue evt) s = obind (queue evt s) (\<lambda>s'. Returns ([], s'))"
| "do_call (SchedPwm idx p now) s = obind (schedPwm idx p now s) (\<lambda>s'. Returns ([], s'))"
| "do_call NextEvent s = obind (nextEvent s) (\<lambda>(evt, s'). Returns ([evt], s'))"
| "do_call (SetBufferSize n) s = Returns ([], setBufferSize n s)"

fun run :: "call list \<Rightarrow> Scheduler \<Rightarrow> (Event list \<times> Scheduler) outcome" where
  "run [] s = Returns ([], s)"
| "run (c # cs) s =
     obind (do_call c s) (\<lambda>(out, s').
     obind (run cs s') (\<lambda>(outs, s''). Returns (out @ outs, s'')))"

subsection \<open>The exit handlers\<close>

text \<open>
  The static registry: one list of handlers for each level
  (\<^verbatim>\<open>SCHED_NUM_EXIT_HANDLER_LEVELS\<close> of them, the length of \<open>exitHandlers\<close>), the atomic
  flag, and what the process has done so far: the log line and the handlers called.
  A handler is a function pointer, here a value of any type \<open>'h\<close>.
\<close>

datatype 'h effect = Logged_Exiting | Called 'h

record 'h Process =
  exitHandlers :: "'h list list"
  isExiting :: bool
  effects :: "'h effect list"

fun call_level :: "'h list \<Rightarrow> 'h effect list \<Rightarrow> 'h effect list" where
  "call_level [] t = t"
| "call_level (handler # rest) t = call_level rest (t @ [Called handler])"

fun call_levels :: "'h list list \<Rightarrow> 'h effect list \<Rightarrow> 'h effect list" where
  "call_levels [] t = t"
| "call_levels (level # rest) t = call_levels rest (call_level level t)"

text \<open>\<^verbatim>\<open>isExiting.exchange(true)\<close> sets the flag and yields its old value.\<close>

definition callExitHandlers :: "'h Process \<Rightarrow> 'h Process" where
  "callExitHandlers p =
     (if \<not> isExiting p
      then p\<lparr>isExiting := True,
             effects := call_levels (exitHandlers p) (effects p @ [Logged_Exiting])\<rparr>
      else p\<lparr>isExiting := True\<rparr>)"

text \<open>
  \<^verbatim>\<open>registerExitHandler\<close>: the guard is \<^verbatim>\<open>level > exitHandlers.size()\<close>; the access
  \<^verbatim>\<open>exitHandlers[level]\<close> of a \<^verbatim>\<open>std::array\<close> is unchecked, and undefined at
  \<^verbatim>\<open>level = size()\<close>.
\<close>

definition registerExitHandler :: "'h \<Rightarrow> nat \<Rightarrow> 'h Process \<Rightarrow> 'h Process outcome" where
  "registerExitHandler handler level p =
     (if level > length (exitHandlers p) then Throws RuntimeError
      else if level < length (exitHandlers p)
      then Returns (p\<lparr>exitHandlers :=
                        (exitHandlers p)[level := exitHandlers p ! level @ [handler]]\<rparr>)
      else UndefinedBehaviour)"

text \<open>
  The static initialisers: every level empty and the flag false. A list of
  registrations is made one call after the other; the first call that does not return
  ends it.
\<close>

definition Process_init :: "nat \<Rightarrow> 'h Process" where
  "Process_init L = \<lparr>exitHandlers = replicate L [], isExiting = False, effects = []\<rparr>"

fun register_all :: "('h \<times> nat) list \<Rightarrow> 'h Process \<Rightarrow> 'h Process outcome" where
  "register_all [] p = Returns p"
| "register_all (r # rs) p = obind (registerExitHandler (fst r) (snd r) p) (register_all rs)"

subsection \<open>\<^verbatim>\<open>initSchedThread\<close>\<close>

text \<open>
  \<open>ret\<close> is what \<^verbatim>\<open>pthread_setschedparam\<close> returns. Modelled from the spec: \<^verbatim>\<open>LOGW\<close> of the
  absent \<^verbatim>\<open>logging.h\<close> writes one warning to the log and does nothing else.
\<close>

datatype log_line = Warning_setschedparam int

definition initSchedThread :: "int \<Rightarrow> log_line list \<Rightarrow> log_line list outcome" where
  "initSchedThread ret lg =
     (if ret \<noteq> 0 then Returns (lg @ [Warning_setschedparam ret]) else Returns lg)"

section \<open>Properties\<close>

subsection \<open>Helper facts\<close>

lemma timespecLt_irrefl: "\<not> timespecLt t t"
  by (simp add: timespecLt_def)

lemma orderedInsert_eq: "orderedInsert evt s = s\<lparr>eventQueue := eventQueue s @ [evt]\<rparr>"
  by (simp add: orderedInsert_def timespecLt_irrefl)

lemma obind_Returns_iff:
  "obind m f = Returns y \<longleftrightarrow> (\<exists>x. m = Returns x \<and> f x = Returns y)"
  by (cases m) auto

lemma offsetNano_adds:
  "stepperId (offsetNano n e) = stepperId e \<and> direction (offsetNano n e) = direction e
   \<and> tv_sec (time (offsetNano n e)) * 1000000000 + tv_nsec (time (offsetNano n e))
       = tv_sec (time e) * 1000000000 + tv_nsec (time e) + int n
   \<and> 0 \<le> tv_nsec (time (offsetNano n e)) \<and> tv_nsec (time (offsetNano n e)) < 1000000000"
  by (simp add: offsetNano_def Let_def)

lemma queue_Returns:
  "queue evt s = Returns s' \<Longrightarrow>
   \<not> lockPushes_owns s \<and> s' = s\<lparr>eventQueue := eventQueue s @ [evt]\<rparr>"
  by (auto simp: queue_def orderedInsert_eq split: if_splits)

lemma schedPwm_Returns:
  "schedPwm idx p now s = Returns s' \<Longrightarrow>
   lockPushes_owns s' = lockPushes_owns s \<and> arePushesLocked s' = arePushesLocked s \<and>
   (\<exists>ins. eventQueue s' = eventQueue s @ ins)"
  by (auto simp: schedPwm_def queue_def orderedInsert_eq split: if_splits)

text \<open>What the regeneration appends for a popped event, given the table.\<close>

lemma nextEvent_regenerate_eq:
  "nextEvent_regenerate evt s = s\<lparr>eventQueue := eventQueue s @
     (if direction evt = StepForward
      then (if nsHigh (pwmInfo s (stepperId evt)) \<noteq> 0
            then [offsetNano (nsHigh (pwmInfo s (stepperId evt)))
                   \<lparr>time = time evt, stepperId = stepperId evt, direction = StepBackward\<rparr>]
            else [])
      else (if nsLow (pwmInfo s (stepperId evt)) \<noteq> 0
            then [offsetNano (nsLow (pwmInfo s (stepperId evt)))
                   \<lparr>time = time evt, stepperId = stepperId evt, direction = StepForward\<rparr>]
            else []))\<rparr>"
  by (simp add: nextEvent_regenerate_def orderedInsert_eq)

lemma nextEvent_regenerate_queue:
  "\<exists>ins. nextEvent_regenerate evt s = s\<lparr>eventQueue := eventQueue s @ ins\<rparr>"
  using nextEvent_regenerate_eq by blast

text \<open>
  A call of \<^verbatim>\<open>nextEvent\<close> that returns has popped the front and appended at the back;
  when the flag agreed with the ownership of the mutex before, it agrees after, and
  tells whether the queue is filled.
\<close>

lemma nextEvent_Returns:
  assumes "nextEvent s = Returns (e, s')"
  shows "\<exists>rest ins. eventQueue s = e # rest \<and> eventQueue s' = rest @ ins \<and>
           bufferSize s' = bufferSize s \<and>
           (lockPushes_owns s = arePushesLocked s \<longrightarrow>
              lockPushes_owns s' = arePushesLocked s' \<and>
              arePushesLocked s' = (\<not> length (eventQueue s') < bufferSize s'))"
proof -
  from assms obtain s1 s2 s5 where
    a: "nextEvent_acquire s = Returns s1" and w: "nextEvent_wait s1 = Returns s2" and
    r: "nextEvent_release (nextEvent_regenerate (hd (eventQueue s2))
          (s2\<lparr>eventQueue := tl (eventQueue s2)\<rparr>)) = Returns s5" and
    e: "e = hd (eventQueue s2)" and s': "s' = s5"
    by (auto simp: nextEvent_def obind_Returns_iff Let_def)
  from a have s1: "eventQueue s1 = eventQueue s" "bufferSize s1 = bufferSize s"
    "lockPushes_owns s = arePushesLocked s \<longrightarrow> lockPushes_owns s1"
    by (auto simp: nextEvent_acquire_def unique_lock_lock_def split: if_splits)
  from w have s2: "s2 = s1" "eventQueue s1 \<noteq> []"
    by (auto simp: nextEvent_wait_def split: if_splits)
  obtain ins where ins: "nextEvent_regenerate e (s2\<lparr>eventQueue := tl (eventQueue s2)\<rparr>)
      = s2\<lparr>eventQueue := tl (eventQueue s2) @ ins\<rparr>"
    using nextEvent_regenerate_queue[of e "s2\<lparr>eventQueue := tl (eventQueue s2)\<rparr>"] by auto
  from r have "eventQueue s5 = tl (eventQueue s2) @ ins \<and> bufferSize s5 = bufferSize s2 \<and>
     (lockPushes_owns s2 \<longrightarrow> lockPushes_owns s5 = arePushesLocked s5 \<and>
        arePushesLocked s5 = (\<not> length (eventQueue s5) < bufferSize s5))"
    unfolding e[symmetric] ins
    by (auto simp: nextEvent_release_def unique_lock_unlock_def obind_Returns_iff split: if_splits)
  with s1 s2 e s' show ?thesis
    by (cases "eventQueue s") auto
qed

text \<open>
  The events returned so far, followed by the events still stored, only ever grow at
  the end; and the flag keeps agreeing with the ownership of the mutex.
\<close>

lemma do_call_Returns:
  assumes "do_call c s = Returns (out, s')"
  shows "(\<exists>ins. out @ eventQueue s' = eventQueue s @ ins) \<and>
         (lockPushes_owns s = arePushesLocked s \<longrightarrow> lockPushes_owns s' = arePushesLocked s')"
proof (cases c)
  case (Queue evt)
  with assms show ?thesis by (auto simp: obind_Returns_iff dest!: queue_Returns)
next
  case (SchedPwm idx p now)
  with assms show ?thesis by (auto simp: obind_Returns_iff dest!: schedPwm_Returns)
next
  case NextEvent
  with assms show ?thesis by (auto simp: obind_Returns_iff dest!: nextEvent_Returns)
next
  case (SetBufferSize n)
  with assms show ?thesis by (auto simp: setBufferSize_def)
qed

lemma run_Returns:
  "run cs s = Returns (outs, s') \<Longrightarrow>
   (\<exists>ins. outs @ eventQueue s' = eventQueue s @ ins) \<and>
   (lockPushes_owns s = arePushesLocked s \<longrightarrow> lockPushes_owns s' = arePushesLocked s')"
proof (induction cs arbitrary: s outs)
  case Nil
  then show ?case by simp
next
  case (Cons c cs)
  from Cons.prems obtain out s1 outs' where
    c: "do_call c s = Returns (out, s1)" and r: "run cs s1 = Returns (outs', s')" and
    o: "outs = out @ outs'"
    by (auto simp: obind_Returns_iff)
  from do_call_Returns[OF c] obtain ins1 where
    1: "out @ eventQueue s1 = eventQueue s @ ins1"
       "lockPushes_owns s = arePushesLocked s \<longrightarrow> lockPushes_owns s1 = arePushesLocked s1"
    by auto
  from Cons.IH[OF r] obtain ins2 where
    2: "outs' @ eventQueue s' = eventQueue s1 @ ins2"
       "lockPushes_owns s1 = arePushesLocked s1 \<longrightarrow> lockPushes_owns s' = arePushesLocked s'"
    by auto
  have "outs @ eventQueue s' = eventQueue s @ ins1 @ ins2"
    using 1(1) 2(1) o by (metis append.assoc)
  with 1(2) 2(2) show ?case by blast
qed

lemmas sched_defs =
  Scheduler_new_def queue_def orderedInsert_eq schedPwm_def nextEvent_def
  nextEvent_acquire_def nextEvent_wait_def nextEvent_regenerate_def nextEvent_release_def
  unique_lock_lock_def unique_lock_unlock_def lastSchedTime_def setBufferSize_def
  offsetNano_def

subsection \<open>Order of the returned events\<close>

text \<open>
  Claim C1. The claim: the events that successive calls of \<^verbatim>\<open>nextEvent\<close> return are
  non-decreasing in deadline, each pop returning a stored event of least deadline. The
  code does not do this. Queueing the deadlines 30 ms, 10 ms and 20 ms on a new scheduler
  and calling \<^verbatim>\<open>nextEvent\<close> three times returns them as 30 ms, 10 ms, 20 ms: the order
  of insertion, the 30 ms event before the earlier 10 ms event.
\<close>

theorem nextEvent_returns_insertion_order:
  "run [Queue (at_ms 30 1 StepForward), Queue (at_ms 10 2 StepForward),
        Queue (at_ms 20 1 StepForward), NextEvent, NextEvent, NextEvent]
     (Scheduler_new 1024)
   = Returns ([at_ms 30 1 StepForward, at_ms 10 2 StepForward, at_ms 20 1 StepForward],
              Scheduler_new 1024)
   \<and> timespecLt (time (at_ms 10 2 StepForward)) (time (at_ms 30 1 StepForward))"
  by (simp add: sched_defs timespecLt_def)

subsection \<open>Regeneration of PWM edges\<close>

text \<open>
  Claim C2. When \<^verbatim>\<open>nextEvent\<close> pops the event \<open>e\<close> from the front of the queue, the
  complementary edge is appended exactly when the opposite half-period of the channel
  of \<open>e\<close> is not zero: for a rising \<open>e\<close> (\<open>StepForward\<close>) with \<open>nsHigh\<close> not zero, the
  falling event on the same channel at the deadline of \<open>e\<close> plus \<open>nsHigh\<close>; for a falling
  \<open>e\<close> with \<open>nsLow\<close> not zero, the rising event at the deadline plus \<open>nsLow\<close>; with a
  zero half-period nothing is inserted. The state that comes back together with \<open>e\<close>
  already holds the inserted event. The call returns whenever the queue is not empty
  and the flag agrees with the ownership of the mutex.
\<close>

theorem nextEvent_regenerates_pwm_edge:
  assumes "eventQueue s = e # rest"
  shows "(lockPushes_owns s = arePushesLocked s \<longrightarrow> (\<exists>s'. nextEvent s = Returns (e, s')))
    \<and> (\<forall>e' s'. nextEvent s = Returns (e', s') \<longrightarrow>
          e' = e \<and> pwmInfo s' = pwmInfo s \<and>
          eventQueue s' = rest @
            (if direction e = StepForward
             then (if nsHigh (pwmInfo s (stepperId e)) \<noteq> 0
                   then [offsetNano (nsHigh (pwmInfo s (stepperId e)))
                          \<lparr>time = time e, stepperId = stepperId e, direction = StepBackward\<rparr>]
                   else [])
             else (if nsLow (pwmInfo s (stepperId e)) \<noteq> 0
                   then [offsetNano (nsLow (pwmInfo s (stepperId e)))
                          \<lparr>time = time e, stepperId = stepperId e, direction = StepForward\<rparr>]
                   else [])))"
proof -
  have ret: "\<exists>s'. nextEvent s = Returns (e, s')" if "lockPushes_owns s = arePushesLocked s"
    using assms that
    by (simp add: nextEvent_def nextEvent_acquire_def nextEvent_wait_def nextEvent_release_def
        nextEvent_regenerate_eq unique_lock_lock_def unique_lock_unlock_def Let_def)
  have eff: "e' = e \<and> pwmInfo s' = pwmInfo s \<and>
          eventQueue s' = rest @
            (if direction e = StepForward
             then (if nsHigh (pwmInfo s (stepperId e)) \<noteq> 0
                   then [offsetNano (nsHigh (pwmInfo s (stepperId e)))
                          \<lparr>time = time e, stepperId = stepperId e, direction = StepBackward\<rparr>]
                   else [])
             else (if nsLow (pwmInfo s (stepperId e)) \<noteq> 0
                   then [offsetNano (nsLow (pwmInfo s (stepperId e)))
                          \<lparr>time = time e, stepperId = stepperId e, direction = StepForward\<rparr>]
                   else []))"
    if "nextEvent s = Returns (e', s')" for e' s'
  proof -
    from that obtain s1 s5 where
      a: "nextEvent_acquire s = Returns s1" and w: "nextEvent_wait s1 = Returns s1" and
      r: "nextEvent_release (nextEvent_regenerate (hd (eventQueue s1))
            (s1\<lparr>eventQueue := tl (eventQueue s1)\<rparr>)) = Returns s5" and
      e': "e' = hd (eventQueue s1)" and s': "s' = s5"
      by (auto simp: nextEvent_def nextEvent_wait_def obind_Returns_iff Let_def split: if_splits)
    from a have s1: "eventQueue s1 = eventQueue s" "pwmInfo s1 = pwmInfo s"
      by (auto simp: nextEvent_acquire_def unique_lock_lock_def split: if_splits)
    from s1 assms e' have "e' = e" by simp
    moreover from r have "pwmInfo s5 = pwmInfo s1 \<and>
        eventQueue s5 = eventQueue (nextEvent_regenerate (hd (eventQueue s1))
            (s1\<lparr>eventQueue := tl (eventQueue s1)\<rparr>))"
      by (auto simp: nextEvent_release_def unique_lock_unlock_def obind_Returns_iff
          nextEvent_regenerate_eq split: if_splits)
    ultimately show ?thesis
      using s1 s' assms by (simp add: nextEvent_regenerate_eq)
  qed
  from ret eff show ?thesis by blast
qed

theorem nextEvent_regenerates_pwm_edge_witness:
  "eventQueue ((Scheduler_new 1024)
      \<lparr>eventQueue := [at_ms 0 5 StepForward],
       pwmInfo := (\<lambda>_. \<lparr>nsHigh = 0, nsLow = 0\<rparr>)(5 := \<lparr>nsHigh = 1000000, nsLow = 2000000\<rparr>)\<rparr>)
     = at_ms 0 5 StepForward # []
   \<and> nextEvent ((Scheduler_new 1024)
      \<lparr>eventQueue := [at_ms 0 5 StepForward],
       pwmInfo := (\<lambda>_. \<lparr>nsHigh = 0, nsLow = 0\<rparr>)(5 := \<lparr>nsHigh = 1000000, nsLow = 2000000\<rparr>)\<rparr>)
     = Returns (at_ms 0 5 StepForward,
         (Scheduler_new 1024)
         \<lparr>eventQueue := [at_ms 1 5 StepBackward],
          pwmInfo := (\<lambda>_. \<lparr>nsHigh = 0, nsLow = 0\<rparr>)(5 := \<lparr>nsHigh = 1000000, nsLow = 2000000\<rparr>)\<rparr>)"
proof -
  let ?s = "(Scheduler_new 1024)
      \<lparr>eventQueue := [at_ms 0 5 StepForward],
       pwmInfo := (\<lambda>_. \<lparr>nsHigh = 0, nsLow = 0\<rparr>)(5 := \<lparr>nsHigh = 1000000, nsLow = 2000000\<rparr>)\<rparr>"
  have q: "eventQueue ?s = at_ms 0 5 StepForward # []" by simp
  have n: "nextEvent ?s = Returns (at_ms 0 5 StepForward,
         (Scheduler_new 1024)
         \<lparr>eventQueue := [at_ms 1 5 StepBackward],
          pwmInfo := (\<lambda>_. \<lparr>nsHigh = 0, nsLow = 0\<rparr>)(5 := \<lparr>nsHigh = 1000000, nsLow = 2000000\<rparr>)\<rparr>)"
    by (simp add: sched_defs)
  from nextEvent_regenerates_pwm_edge[OF q] n q show ?thesis by simp
qed

subsection \<open>Starting and updating a PWM channel\<close>

text \<open>
  Claim C3. \<^verbatim>\<open>schedPwm(idx, p)\<close> on a channel that is already active (both stored
  half-periods not zero) overwrites the entry with \<open>p\<close> and leaves the queue as it was;
  otherwise it overwrites the entry with \<open>p\<close> and appends exactly one seed event: the
  reading of the clock, the channel, \<open>StepForward\<close>. The seed is inserted through
  \<^verbatim>\<open>queue\<close>, so in the second case the call waits while the consumer keeps the mutex.
\<close>

theorem schedPwm_seeds_inactive_only:
  "(nsHigh (pwmInfo s idx) \<noteq> 0 \<and> nsLow (pwmInfo s idx) \<noteq> 0 \<longrightarrow>
      schedPwm idx p now s = Returns (s\<lparr>pwmInfo := (pwmInfo s)(idx := p)\<rparr>))
   \<and> (\<not> (nsHigh (pwmInfo s idx) \<noteq> 0 \<and> nsLow (pwmInfo s idx) \<noteq> 0) \<and> \<not> lockPushes_owns s \<longrightarrow>
      schedPwm idx p now s =
        Returns (s\<lparr>eventQueue :=
                     eventQueue s @ [\<lparr>time = now, stepperId = idx, direction = StepForward\<rparr>],
                   pwmInfo := (pwmInfo s)(idx := p)\<rparr>))
   \<and> (\<not> (nsHigh (pwmInfo s idx) \<noteq> 0 \<and> nsLow (pwmInfo s idx) \<noteq> 0) \<and> lockPushes_owns s \<longrightarrow>
      schedPwm idx p now s = Blocks)"
  by (simp add: schedPwm_def queue_def orderedInsert_eq)

theorem schedPwm_seeds_inactive_only_witness:
  "schedPwm 5 \<lparr>nsHigh = 500000, nsLow = 500000\<rparr> \<lparr>tv_sec = 7, tv_nsec = 0\<rparr>
     ((Scheduler_new 1024)
      \<lparr>eventQueue := [at_ms 1 5 StepBackward],
       pwmInfo := (\<lambda>_. \<lparr>nsHigh = 0, nsLow = 0\<rparr>)(5 := \<lparr>nsHigh = 1000000, nsLow = 2000000\<rparr>)\<rparr>)
   = Returns ((Scheduler_new 1024)
      \<lparr>eventQueue := [at_ms 1 5 StepBackward],
       pwmInfo := (\<lambda>_. \<lparr>nsHigh = 0, nsLow = 0\<rparr>)(5 := \<lparr>nsHigh = 500000, nsLow = 500000\<rparr>)\<rparr>)
   \<and> schedPwm 5 \<lparr>nsHigh = 1000000, nsLow = 2000000\<rparr> \<lparr>tv_sec = 7, tv_nsec = 0\<rparr>
       (Scheduler_new 1024)
   = Returns ((Scheduler_new 1024)
      \<lparr>eventQueue := [\<lparr>time = \<lparr>tv_sec = 7, tv_nsec = 0\<rparr>, stepperId = 5, direction = StepForward\<rparr>],
       pwmInfo := (\<lambda>_. \<lparr>nsHigh = 0, nsLow = 0\<rparr>)(5 := \<lparr>nsHigh = 1000000, nsLow = 2000000\<rparr>)\<rparr>)"
  using schedPwm_seeds_inactive_only[of
      "(Scheduler_new 1024)
        \<lparr>eventQueue := [at_ms 1 5 StepBackward],
         pwmInfo := (\<lambda>_. \<lparr>nsHigh = 0, nsLow = 0\<rparr>)(5 := \<lparr>nsHigh = 1000000, nsLow = 2000000\<rparr>)\<rparr>"
      5 "\<lparr>nsHigh = 500000, nsLow = 500000\<rparr>" "\<lparr>tv_sec = 7, tv_nsec = 0\<rparr>"]
    schedPwm_seeds_inactive_only[of "Scheduler_new 1024" 5
      "\<lparr>nsHigh = 1000000, nsLow = 2000000\<rparr>" "\<lparr>tv_sec = 7, tv_nsec = 0\<rparr>"]
  by (simp add: Scheduler_new_def)

subsection \<open>The exit handlers\<close>

lemma call_level_eq: "call_level hs t = t @ map Called hs"
  by (induction hs arbitrary: t) auto

lemma call_levels_eq: "call_levels ls t = t @ map Called (concat ls)"
  by (induction ls arbitrary: t) (auto simp: call_level_eq)

lemma callExitHandlers_first:
  "\<not> isExiting p \<Longrightarrow>
   effects (callExitHandlers p)
     = effects p @ Logged_Exiting # map Called (concat (exitHandlers p))"
  by (simp add: callExitHandlers_def call_levels_eq)

lemma callExitHandlers_again: "isExiting p \<Longrightarrow> callExitHandlers p = p"
  by (simp add: callExitHandlers_def)

lemma callExitHandlers_sets: "isExiting (callExitHandlers p)"
  by (simp add: callExitHandlers_def)

text \<open>
  Registrations at levels below the number of levels all return, and each level ends
  up with its handlers in the order of the calls.
\<close>

lemma register_all_levels:
  "\<forall>r \<in> set regs. snd r < length (exitHandlers p) \<Longrightarrow>
   \<exists>p'. register_all regs p = Returns p' \<and> isExiting p' = isExiting p \<and>
     effects p' = effects p \<and>
     exitHandlers p' =
       map (\<lambda>l. exitHandlers p ! l @ map fst (filter (\<lambda>r. snd r = l) regs))
         [0..<length (exitHandlers p)]"
proof (induction regs arbitrary: p)
  case Nil
  then show ?case by (simp add: map_nth)
next
  case (Cons r rs)
  let ?p1 = "p\<lparr>exitHandlers := (exitHandlers p)[snd r := exitHandlers p ! snd r @ [fst r]]\<rparr>"
  from Cons.prems have lt: "snd r < length (exitHandlers p)" by simp
  then have step: "registerExitHandler (fst r) (snd r) p = Returns ?p1"
    by (simp add: registerExitHandler_def)
  from Cons.prems have "\<forall>r \<in> set rs. snd r < length (exitHandlers ?p1)" by simp
  from Cons.IH[OF this] obtain p' where
    p': "register_all rs ?p1 = Returns p'" "isExiting p' = isExiting p" "effects p' = effects p"
      "exitHandlers p' = map (\<lambda>l. exitHandlers ?p1 ! l @ map fst (filter (\<lambda>r. snd r = l) rs))
         [0..<length (exitHandlers ?p1)]"
    by auto
  have "exitHandlers p' =
      map (\<lambda>l. exitHandlers p ! l @ map fst (filter (\<lambda>x. snd x = l) (r # rs)))
        [0..<length (exitHandlers p)]"
    unfolding p'(4) using lt by (auto simp: nth_list_update)
  with p' step show ?case by simp
qed

text \<open>
  Claim C4. The first call of \<^verbatim>\<open>callExitHandlers\<close> (the flag not yet set) calls every
  registered handler exactly once, level after level in ascending order and, within a
  level, in the order of registration; it sets the flag. A call with the flag set
  changes nothing and calls no handler, so every call after the first does nothing.
  For handlers registered by a list \<open>regs\<close> of calls at levels below the number \<open>L\<close> of
  levels, the handlers called are those of level 0 in the order of \<open>regs\<close>, then those
  of level 1, and so on.
\<close>

theorem callExitHandlers_once_in_order:
  "(\<not> isExiting p \<longrightarrow>
      effects (callExitHandlers p)
        = effects p @ Logged_Exiting # map Called (concat (exitHandlers p)))
   \<and> (isExiting p \<longrightarrow> callExitHandlers p = p)
   \<and> isExiting (callExitHandlers p)
   \<and> callExitHandlers (callExitHandlers p) = callExitHandlers p
   \<and> ((\<forall>r \<in> set regs. snd r < L) \<longrightarrow>
       (\<exists>p'. register_all regs (Process_init L) = Returns p' \<and>
          effects (callExitHandlers p') =
            Logged_Exiting #
            map Called (concat (map (\<lambda>l. map fst (filter (\<lambda>r. snd r = l) regs)) [0..<L]))))"
proof -
  have "\<exists>p'. register_all regs (Process_init L) = Returns p' \<and>
          effects (callExitHandlers p') =
            Logged_Exiting #
            map Called (concat (map (\<lambda>l. map fst (filter (\<lambda>r. snd r = l) regs)) [0..<L]))"
    if "\<forall>r \<in> set regs. snd r < L"
  proof -
    let ?p0 = "Process_init L :: 'b Process"
    from that have "\<forall>r \<in> set regs. snd r < length (exitHandlers ?p0)"
      by (simp add: Process_init_def)
    from register_all_levels[OF this] obtain p' where
      p': "register_all regs ?p0 = Returns p'" "isExiting p' = isExiting ?p0"
        "effects p' = effects ?p0"
        "exitHandlers p' = map (\<lambda>l. exitHandlers ?p0 ! l @ map fst (filter (\<lambda>r. snd r = l) regs))
           [0..<length (exitHandlers ?p0)]"
      by auto
    have eh: "exitHandlers p' = map (\<lambda>l. map fst (filter (\<lambda>r. snd r = l) regs)) [0..<L]"
      unfolding p'(4) by (simp add: Process_init_def)
    have "\<not> isExiting p'" using p'(2) by (simp add: Process_init_def)
    from callExitHandlers_first[OF this] have
      "effects (callExitHandlers p') = Logged_Exiting #
            map Called (concat (map (\<lambda>l. map fst (filter (\<lambda>r. snd r = l) regs)) [0..<L]))"
      using p'(3) eh by (simp add: Process_init_def)
    with p'(1) show ?thesis by blast
  qed
  then show ?thesis
    using callExitHandlers_first[of p] callExitHandlers_again[of p] callExitHandlers_sets[of p]
      callExitHandlers_again[OF callExitHandlers_sets[of p]]
    by blast
qed

text \<open>
  The scenario of three handlers: H1 and H2 at level 0 and H3 at level 1 (written 1, 2
  and 3), registered as H3, H1, H2.
\<close>

theorem callExitHandlers_once_in_order_witness:
  "register_all [(3::nat, 1), (1, 0), (2, 0)] (Process_init 3) =
     Returns \<lparr>exitHandlers = [[1, 2], [3], []], isExiting = False, effects = []\<rparr>
   \<and> callExitHandlers
       \<lparr>exitHandlers = [[1::nat, 2], [3], []], isExiting = False, effects = []\<rparr>
     = \<lparr>exitHandlers = [[1, 2], [3], []], isExiting = True,
        effects = [Logged_Exiting, Called 1, Called 2, Called 3]\<rparr>
   \<and> callExitHandlers
       \<lparr>exitHandlers = [[1::nat, 2], [3], []], isExiting = True,
        effects = [Logged_Exiting, Called 1, Called 2, Called 3]\<rparr>
     = \<lparr>exitHandlers = [[1, 2], [3], []], isExiting = True,
        effects = [Logged_Exiting, Called 1, Called 2, Called 3]\<rparr>"
  using callExitHandlers_once_in_order[of
      "\<lparr>exitHandlers = [[1::nat, 2], [3], []], isExiting = False, effects = []\<rparr>"
      "[(3::nat, 1::nat), (1, 0), (2, 0)]" 3]
    callExitHandlers_once_in_order[of
      "\<lparr>exitHandlers = [[1::nat, 2], [3], []], isExiting = True,
        effects = [Logged_Exiting, Called 1, Called 2, Called 3]\<rparr>" "[]" 3]
  by (simp add: Process_init_def registerExitHandler_def callExitHandlers_def
      numeral_3_eq_3)

lemma registerExitHandler_in_range:
  "level < length (exitHandlers p) \<Longrightarrow>
   registerExitHandler handler level p =
     Returns (p\<lparr>exitHandlers := (exitHandlers p)[level := exitHandlers p ! level @ [handler]]\<rparr>)"
  by (simp add: registerExitHandler_def)

lemma registerExitHandler_above:
  "length (exitHandlers p) < level \<Longrightarrow> registerExitHandler handler level p = Throws RuntimeError"
  by (simp add: registerExitHandler_def)

lemma registerExitHandler_at_size:
  "registerExitHandler handler (length (exitHandlers p)) p = UndefinedBehaviour"
  by (simp add: registerExitHandler_def)

text \<open>
  Claim C5. The claim: \<^verbatim>\<open>registerExitHandler\<close> throws exactly when the level is not
  below the number of levels, and leaves the registry alone then. The guard of the code
  is \<^verbatim>\<open>level > exitHandlers.size()\<close>, so the level equal to the number of levels passes
  it: with three levels, registering at level 3 does not throw and goes on to the
  unchecked access \<^verbatim>\<open>exitHandlers[3]\<close>, one past the end of the array.
\<close>

theorem registerExitHandler_level_equal_size:
  "registerExitHandler (0::nat) 3 (Process_init 3) = UndefinedBehaviour
   \<and> registerExitHandler (0::nat) 3 (Process_init 3) \<noteq> Throws RuntimeError
   \<and> registerExitHandler (0::nat) 4 (Process_init 3) = Throws RuntimeError"
  by (simp add: registerExitHandler_def Process_init_def)

subsection \<open>Keeping the mutex while the queue is filled\<close>

text \<open>
  Claim C6. Take any state the scheduler reaches from its constructor by calls of
  \<^verbatim>\<open>queue\<close>, \<^verbatim>\<open>schedPwm\<close>, \<^verbatim>\<open>nextEvent\<close> and \<^verbatim>\<open>setBufferSize\<close>, and a call of
  \<^verbatim>\<open>nextEvent\<close> there that returns. At its end the consumer has given the mutex back
  and \<^verbatim>\<open>_arePushesLocked\<close> is false exactly when the queue, after the pop and the
  regeneration, is shorter than \<^verbatim>\<open>bufferSize\<close>; otherwise the consumer still owns the
  mutex and \<^verbatim>\<open>_arePushesLocked\<close> is true. The next call of \<^verbatim>\<open>nextEvent\<close> leaves out the
  locking exactly when \<^verbatim>\<open>_arePushesLocked\<close> is true, and either way goes on owning the
  mutex, without an error from the lock.
\<close>

theorem nextEvent_keeps_mutex_iff_filled:
  assumes "run cs (Scheduler_new cap) = Returns (outs, s)"
      and "nextEvent s = Returns (e, s')"
  shows "(length (eventQueue s') < bufferSize s' \<longrightarrow>
            \<not> lockPushes_owns s' \<and> \<not> arePushesLocked s')
       \<and> (\<not> length (eventQueue s') < bufferSize s' \<longrightarrow>
            lockPushes_owns s' \<and> arePushesLocked s')
       \<and> nextEvent_acquire s' = (if arePushesLocked s' then Returns s' else unique_lock_lock s')
       \<and> nextEvent_acquire s' = Returns (s'\<lparr>lockPushes_owns := True\<rparr>)"
proof -
  have "lockPushes_owns (Scheduler_new cap) = arePushesLocked (Scheduler_new cap)"
    by (simp add: Scheduler_new_def)
  with run_Returns[OF assms(1)] have "lockPushes_owns s = arePushesLocked s" by blast
  with nextEvent_Returns[OF assms(2)] have
    *: "lockPushes_owns s' = arePushesLocked s'"
       "arePushesLocked s' = (\<not> length (eventQueue s') < bufferSize s')"
    by auto
  have "s' = s'\<lparr>lockPushes_owns := True\<rparr>" if "lockPushes_owns s'"
    using that by simp
  with * show ?thesis
    by (auto simp: nextEvent_acquire_def unique_lock_lock_def)
qed

text \<open>
  Two events queued and one popped: with a buffer of one the queue is still filled and
  the mutex is kept; with a buffer of four it is given back.
\<close>

theorem nextEvent_keeps_mutex_iff_filled_witness:
  "run [Queue (at_ms 1 0 StepBackward), Queue (at_ms 2 0 StepBackward)] (Scheduler_new 1)
     = Returns ([], (Scheduler_new 1)
         \<lparr>eventQueue := [at_ms 1 0 StepBackward, at_ms 2 0 StepBackward]\<rparr>)
   \<and> nextEvent ((Scheduler_new 1)
         \<lparr>eventQueue := [at_ms 1 0 StepBackward, at_ms 2 0 StepBackward]\<rparr>)
     = Returns (at_ms 1 0 StepBackward, (Scheduler_new 1)
         \<lparr>eventQueue := [at_ms 2 0 StepBackward], lockPushes_owns := True,
          arePushesLocked := True\<rparr>)
   \<and> run [Queue (at_ms 1 0 StepBackward), Queue (at_ms 2 0 StepBackward)] (Scheduler_new 4)
     = Returns ([], (Scheduler_new 4)
         \<lparr>eventQueue := [at_ms 1 0 StepBackward, at_ms 2 0 StepBackward]\<rparr>)
   \<and> nextEvent ((Scheduler_new 4)
         \<lparr>eventQueue := [at_ms 1 0 StepBackward, at_ms 2 0 StepBackward]\<rparr>)
     = Returns (at_ms 1 0 StepBackward, (Scheduler_new 4)
         \<lparr>eventQueue := [at_ms 2 0 StepBackward]\<rparr>)
   \<and> nextEvent_acquire ((Scheduler_new 1)
         \<lparr>eventQueue := [at_ms 2 0 StepBackward], lockPushes_owns := True,
          arePushesLocked := True\<rparr>)
     = Returns ((Scheduler_new 1)
         \<lparr>eventQueue := [at_ms 2 0 StepBackward], lockPushes_owns := True,
          arePushesLocked := True\<rparr>)
   \<and> nextEvent_acquire ((Scheduler_new 4) \<lparr>eventQueue := [at_ms 2 0 StepBackward]\<rparr>)
     = Returns ((Scheduler_new 4)
         \<lparr>eventQueue := [at_ms 2 0 StepBackward], lockPushes_owns := True\<rparr>)"
proof -
  let ?q = "[at_ms 1 0 StepBackward, at_ms 2 0 StepBackward]"
  have r1: "run [Queue (at_ms 1 0 StepBackward), Queue (at_ms 2 0 StepBackward)]
      (Scheduler_new 1) = Returns ([], (Scheduler_new 1)\<lparr>eventQueue := ?q\<rparr>)"
    by (simp add: sched_defs)
  have n1: "nextEvent ((Scheduler_new 1)\<lparr>eventQueue := ?q\<rparr>)
     = Returns (at_ms 1 0 StepBackward, (Scheduler_new 1)
         \<lparr>eventQueue := [at_ms 2 0 StepBackward], lockPushes_owns := True,
          arePushesLocked := True\<rparr>)"
    by (simp add: sched_defs)
  have r4: "run [Queue (at_ms 1 0 StepBackward), Queue (at_ms 2 0 StepBackward)]
      (Scheduler_new 4) = Returns ([], (Scheduler_new 4)\<lparr>eventQueue := ?q\<rparr>)"
    by (simp add: sched_defs)
  have n4: "nextEvent ((Scheduler_new 4)\<lparr>eventQueue := ?q\<rparr>)
     = Returns (at_ms 1 0 StepBackward, (Scheduler_new 4)
         \<lparr>eventQueue := [at_ms 2 0 StepBackward]\<rparr>)"
    by (simp add: sched_defs)
  from nextEvent_keeps_mutex_iff_filled[OF r1 n1] nextEvent_keeps_mutex_iff_filled[OF r4 n4]
    r1 n1 r4 n4
  show ?thesis
    by (simp add: Scheduler_new_def nextEvent_acquire_def unique_lock_lock_def)
qed

subsection \<open>The time of the last scheduled event\<close>

lemma lastSchedTime_back:
  "\<not> lockPushes_owns s \<Longrightarrow>
   lastSchedTime now s =
     Returns (if eventQueue s = [] then now else time (last (eventQueue s)))"
  by (simp add: lastSchedTime_def)

lemma last_of_ordered_is_largest:
  "sorted_wrt (\<lambda>a b. \<not> timespecLt (time b) (time a)) q \<Longrightarrow> q \<noteq> [] \<Longrightarrow> e \<in> set q \<Longrightarrow>
   \<not> timespecLt (time (last q)) (time e)"
proof (induction q)
  case Nil
  then show ?case by simp
next
  case (Cons x q)
  then show ?case by (cases "q = []") (auto simp: timespecLt_irrefl)
qed

text \<open>On a queue that is ordered by deadline the back does hold the largest deadline.\<close>

lemma lastSchedTime_largest_if_ordered:
  assumes "sorted_wrt (\<lambda>a b. \<not> timespecLt (time b) (time a)) (eventQueue s)"
      and "eventQueue s \<noteq> []" and "\<not> lockPushes_owns s" and "e \<in> set (eventQueue s)"
  shows "\<exists>t. lastSchedTime now s = Returns t \<and> \<not> timespecLt t (time e)"
  using last_of_ordered_is_largest[OF assms(1,2,4)] assms(2,3)
  by (simp add: lastSchedTime_def)

text \<open>
  Claim C7. The claim: on a queue that is not empty \<^verbatim>\<open>lastSchedTime\<close> returns the
  largest deadline stored. The code returns the deadline of the back of the queue, and
  the queue is in insertion order. After queueing the deadlines 30 ms and 10 ms on a new
  scheduler it returns 10 ms, though 30 ms is stored.
\<close>

theorem lastSchedTime_returns_back:
  "obind (run [Queue (at_ms 30 1 StepForward), Queue (at_ms 10 2 StepForward)]
            (Scheduler_new 1024))
     (\<lambda>(outs, s). lastSchedTime \<lparr>tv_sec = 5, tv_nsec = 0\<rparr> s)
   = Returns (time (at_ms 10 2 StepForward))
   \<and> timespecLt (time (at_ms 10 2 StepForward)) (time (at_ms 30 1 StepForward))"
  by (simp add: sched_defs timespecLt_def)

subsection \<open>First in, first out\<close>

text \<open>
  Two events stored in the queue, however they were inserted, keep their places and
  their order through any calls, and come back in that order.
\<close>

lemma stored_events_keep_order:
  assumes "run cs s = Returns (outs, s')" and "i < j" and "j < length (eventQueue s)"
  shows "(outs @ eventQueue s') ! i = eventQueue s ! i
       \<and> (outs @ eventQueue s') ! j = eventQueue s ! j
       \<and> (j < length outs \<longrightarrow> outs ! i = eventQueue s ! i \<and> outs ! j = eventQueue s ! j)"
proof -
  from run_Returns[OF assms(1)] obtain ins where
    h: "outs @ eventQueue s' = eventQueue s @ ins" by blast
  have k: "(outs @ eventQueue s') ! k = eventQueue s ! k" if "k < length (eventQueue s)" for k
    unfolding h using that by (simp add: nth_append)
  have "outs ! k = (outs @ eventQueue s') ! k" if "k < length outs" for k
    using that by (simp add: nth_append)
  with k assms(2,3) show ?thesis by (metis less_trans)
qed

text \<open>
  Claim C8. Events of equal deadline are returned in the order of their insertion. Let
  \<open>a\<close> be queued in state \<open>s\<close>, then any calls made, then \<open>b\<close> queued, then any calls
  made again. Count the events in the order of their storage: those returned, followed
  by those still in the queue. Then \<open>a\<close> has the place it was stored at (the length of
  the queue of \<open>s\<close>), \<open>b\<close> has a later place, both keep their places, and the events
  returned are the first places in their order. So once \<open>b\<close> has been returned, \<open>a\<close>
  was returned before it.
\<close>

theorem nextEvent_fifo_equal_deadlines:
  assumes "run (Queue a # cs1) s = Returns (outs1, s1)"
      and "run (Queue b # cs2) s1 = Returns (outs2, s2)"
      and "time a = time b"
  shows "length (eventQueue s) < length outs1 + length (eventQueue s1)
       \<and> length outs1 + length (eventQueue s1) < length (outs1 @ outs2 @ eventQueue s2)
       \<and> (outs1 @ outs2 @ eventQueue s2) ! length (eventQueue s) = a
       \<and> (outs1 @ outs2 @ eventQueue s2) ! (length outs1 + length (eventQueue s1)) = b
       \<and> (length outs1 + length (eventQueue s1) < length (outs1 @ outs2) \<longrightarrow>
            (outs1 @ outs2) ! length (eventQueue s) = a
          \<and> (outs1 @ outs2) ! (length outs1 + length (eventQueue s1)) = b)"
proof -
  have ins: "\<exists>ins. outs @ eventQueue s' = eventQueue s0 @ [x] @ ins"
    if "run (Queue x # cs) s0 = Returns (outs, s')" for x cs s0 outs s'
  proof -
    from that obtain sx where q: "queue x s0 = Returns sx" and r: "run cs sx = Returns (outs, s')"
      by (auto simp: obind_Returns_iff)
    from queue_Returns[OF q] have "eventQueue sx = eventQueue s0 @ [x]" by simp
    with run_Returns[OF r] show ?thesis by auto
  qed
  from ins[OF assms(1)] obtain i1 where
    h1: "outs1 @ eventQueue s1 = eventQueue s @ [a] @ i1" by blast
  from ins[OF assms(2)] obtain i2 where
    h2: "outs2 @ eventQueue s2 = eventQueue s1 @ [b] @ i2" by blast
  let ?H = "outs1 @ outs2 @ eventQueue s2"
  let ?pa = "length (eventQueue s)" and ?pb = "length outs1 + length (eventQueue s1)"
  have H: "?H = (outs1 @ eventQueue s1) @ [b] @ i2" using h2 by simp
  have len1: "length (outs1 @ eventQueue s1) = ?pb" by simp
  have pab: "?pa < ?pb" using arg_cong[OF h1, of length] by simp
  have pbH: "?pb < length ?H" using arg_cong[OF H, of length] by simp
  have Hb: "?H ! ?pb = b" unfolding H using len1 by (metis append_Cons nth_append_length)
  have "?H = eventQueue s @ [a] @ i1 @ [b] @ i2" unfolding H h1 by simp
  then have Ha: "?H ! ?pa = a" by (metis append_Cons nth_append_length)
  have pre: "(outs1 @ outs2) ! k = ?H ! k" if "k < length (outs1 @ outs2)" for k
    using that by (metis append.assoc nth_append)
  show ?thesis using pab pbH Ha Hb pre by (metis (no_types, lifting) less_trans)
qed

text \<open>
  Two events at 10 ms, on channels 1 and 2, queued in this order and popped: channel 1
  comes back first.
\<close>

theorem nextEvent_fifo_equal_deadlines_witness:
  "run (Queue (at_ms 10 1 StepBackward) # []) (Scheduler_new 1024)
     = Returns ([], (Scheduler_new 1024)\<lparr>eventQueue := [at_ms 10 1 StepBackward]\<rparr>)
   \<and> run (Queue (at_ms 10 2 StepBackward) # [NextEvent, NextEvent])
       ((Scheduler_new 1024)\<lparr>eventQueue := [at_ms 10 1 StepBackward]\<rparr>)
     = Returns ([at_ms 10 1 StepBackward, at_ms 10 2 StepBackward], Scheduler_new 1024)
   \<and> time (at_ms 10 1 StepBackward) = time (at_ms 10 2 StepBackward)
   \<and> ([] @ [at_ms 10 1 StepBackward, at_ms 10 2 StepBackward]) ! 0 = at_ms 10 1 StepBackward
   \<and> ([] @ [at_ms 10 1 StepBackward, at_ms 10 2 StepBackward]) ! 1 = at_ms 10 2 StepBackward"
proof -
  have r1: "run (Queue (at_ms 10 1 StepBackward) # []) (Scheduler_new 1024)
     = Returns ([], (Scheduler_new 1024)\<lparr>eventQueue := [at_ms 10 1 StepBackward]\<rparr>)"
    by (simp add: sched_defs)
  have r2: "run (Queue (at_ms 10 2 StepBackward) # [NextEvent, NextEvent])
       ((Scheduler_new 1024)\<lparr>eventQueue := [at_ms 10 1 StepBackward]\<rparr>)
     = Returns ([at_ms 10 1 StepBackward, at_ms 10 2 StepBackward], Scheduler_new 1024)"
    by (simp add: sched_defs)
  have t: "time (at_ms 10 1 StepBackward) = time (at_ms 10 2 StepBackward)" by simp
  from nextEvent_fifo_equal_deadlines[OF r1 r2 t] r1 r2 show ?thesis
    by (simp add: Scheduler_new_def)
qed

subsection \<open>Insertion appends\<close>

lemma fold_orderedInsert:
  "fold orderedInsert evts s = s\<lparr>eventQueue := eventQueue s @ evts\<rparr>"
  by (induction evts arbitrary: s) (simp_all add: orderedInsert_eq)

text \<open>
  Claim C9. Every call of \<^verbatim>\<open>orderedInsert\<close> appends the event at the back of the queue
  and leaves every stored element where it was: the guard of the re-heapify branch
  compares the time of the new event with the time of the back of the queue, which
  after the \<^verbatim>\<open>push_back\<close> is the new event itself, and no time is less than itself. So
  the branch is never taken, and after any sequence of insertions the queue is the old
  queue followed by the inserted events in the order of their insertion.
\<close>

theorem orderedInsert_appends:
  "\<not> timespecLt (time evt) (time (last (eventQueue s @ [evt])))
   \<and> orderedInsert evt s = s\<lparr>eventQueue := eventQueue s @ [evt]\<rparr>
   \<and> take (length (eventQueue s)) (eventQueue (orderedInsert evt s)) = eventQueue s
   \<and> last (eventQueue (orderedInsert evt s)) = evt
   \<and> eventQueue (fold orderedInsert evts s) = eventQueue s @ evts"
  by (simp add: orderedInsert_def timespecLt_irrefl fold_orderedInsert)

subsection \<open>Raising the priority of the consumer thread\<close>

text \<open>
  Claim C10. \<^verbatim>\<open>initSchedThread\<close> never fails: whatever \<^verbatim>\<open>pthread_setschedparam\<close>
  returns, the function returns; when the result is not zero (the priority was denied)
  it has logged one warning carrying the result, and when it is zero it has logged
  nothing.
\<close>

theorem initSchedThread_never_fails:
  "(\<exists>lg'. initSchedThread ret lg = Returns lg')
   \<and> (ret \<noteq> 0 \<longrightarrow> initSchedThread ret lg = Returns (lg @ [Warning_setschedparam ret]))
   \<and> (ret = 0 \<longrightarrow> initSchedThread ret lg = Returns lg)"
  by (simp add: initSchedThread_def)

theorem initSchedThread_never_fails_witness:
  "initSchedThread 1 [] = Returns [Warning_setschedparam 1]
   \<and> initSchedThread 0 [] = Returns []"
  using initSchedThread_never_fails[of 1 "[]"] initSchedThread_never_fails[of 0 "[]"]
  by simp

end
